theory Spec2Isabelle
  imports Complex_Main "HOL-Library.Multiset" "HOL-Library.Char_ord" "HOL-Library.List_Lexorder"
begin

section \<open>Values, items and collaborators\<close>

text \<open>
  The items of \<^verbatim>\<open>span-explore.ts\<close> are plain objects decoded from a JSON payload
  (\<^verbatim>\<open>ExploreItem extends Record<string, any>\<close>). A field holds a JSON scalar; a field
  that is not there reads as \<^verbatim>\<open>undefined\<close>. The sort step additionally builds
  \<^verbatim>\<open>Date\<close> objects, whose time value is a whole number of milliseconds or \<^verbatim>\<open>NaN\<close>
  (an Invalid Date, \<open>JDate None\<close>).

  A finite JavaScript number is modelled by the real number it denotes: the pipeline only
  compares numbers, and the comparison of finite doubles is exact. \<^verbatim>\<open>NaN\<close>, the
  infinities and symbols cannot occur in a decoded JSON payload and are not values of the
  model; nested arrays and objects are not modelled either. Objects are modelled by
  their own properties: attribute names and type labels are taken not to collide with
  the property names every object inherits (\<^verbatim>\<open>constructor\<close>, \<^verbatim>\<open>toString\<close>, ...).
  Strings are sequences of code units, compared lexicographically.
\<close>

datatype jsval =
    JUndefined
  | JNull
  | JBool bool
  | JNum real
  | JStr string
  | JDate "int option"

type_synonym ExploreItem = "(string \<times> jsval) list"

record ColumnInfo =
  name :: string
  isNum :: bool
  isGroup :: bool

record TypeItem =
  type :: string
  numGroup :: nat

record Order =
  column :: "string option"
  desc :: bool

text \<open>
  Modelled from the spec: the pager of \<^verbatim>\<open>@/use/pager\<close> is not part of the sources at
  hand. Its state is \<^verbatim>\<open>{ page, perPage, numItem }\<close>; the pipeline writes \<open>numItem\<close> and
  reads the derived position \<^verbatim>\<open>pos.start\<close>, \<^verbatim>\<open>pos.end\<close>.
\<close>

record Pager =
  page :: int
  perPage :: int
  numItem :: nat

record PagerPos =
  pos_start :: int
  pos_end :: int

text \<open>
  \<^verbatim>\<open>QueryPart\<close> comes from \<^verbatim>\<open>@/use/uql\<close>; the pipeline only passes it on.
\<close>

type_synonym QueryPart = string

text \<open>
  The result of the request as \<^verbatim>\<open>useWatchAxios\<close> hands it over: each of the three
  fields may be missing (\<open>None\<close> stands for \<^verbatim>\<open>undefined\<close> and \<^verbatim>\<open>null\<close> alike, which
  \<^verbatim>\<open>?.\<close> and \<^verbatim>\<open>??\<close> do not tell apart).
\<close>

record QueryResult =
  groups :: "ExploreItem list option"
  columns_of :: "ColumnInfo list option"
  queryParts_of :: "QueryPart list option"

record ErrorData =
  message :: jsval
  code :: jsval
  query_of :: jsval

record Response =
  response_data :: "ErrorData option"

record QueryError =
  response :: "Response option"

text \<open>
  What the module imports and the sources at hand do not contain is a parameter of the
  model: the attribute keys \<^verbatim>\<open>xkey.spanSystem\<close> and \<^verbatim>\<open>xkey.spanTime\<close>, the first
  component of \<^verbatim>\<open>splitTypeSystem\<close> (\<^verbatim>\<open>@/models/otelattr\<close>), the position the pager
  derives from its state, \<^verbatim>\<open>format\<close> of \<^verbatim>\<open>sql-formatter\<close>, and two functions of the
  JavaScript engine: \<^verbatim>\<open>Date.parse\<close> and the conversion of a string to a number
  (\<open>None\<close> is \<^verbatim>\<open>NaN\<close> in both).
\<close>

record env =
  spanSystem :: string
  spanTime :: string
  splitTypeSystem :: "jsval \<Rightarrow> string"
  pos :: "Pager \<Rightarrow> PagerPos"
  format :: "jsval \<Rightarrow> string"
  dateParse :: "string \<Rightarrow> int option"
  stringToNumber :: "string \<Rightarrow> real option"

text \<open>\<^verbatim>\<open>item[key]\<close>: the value of an own property, \<^verbatim>\<open>undefined\<close> when there is none.\<close>

definition getField :: "ExploreItem \<Rightarrow> string \<Rightarrow> jsval" where
  "getField item k = (case map_of item k of None \<Rightarrow> JUndefined | Some v \<Rightarrow> v)"

text \<open>\<^verbatim>\<open>!v\<close>: the values JavaScript takes for false in a condition.\<close>

fun falsy :: "jsval \<Rightarrow> bool" where
  "falsy JUndefined = True"
| "falsy JNull = True"
| "falsy (JBool b) = (\<not> b)"
| "falsy (JNum x) = (x = 0)"
| "falsy (JStr s) = (s = [])"
| "falsy (JDate t) = False"

section \<open>Raw and filtered items\<close>

text \<open>\<^verbatim>\<open>data.value?.groups ?? []\<close>\<close>

definition items :: "QueryResult option \<Rightarrow> ExploreItem list" where
  "items d = (case d of None \<Rightarrow> []
              | Some r \<Rightarrow> (case groups r of None \<Rightarrow> [] | Some g \<Rightarrow> g))"

text \<open>The callback of \<^verbatim>\<open>items.value.filter\<close> in \<^verbatim>\<open>filteredItems\<close>.\<close>

definition keepItem :: "env \<Rightarrow> string list \<Rightarrow> ExploreItem \<Rightarrow> bool" where
  "keepItem e typeFilter item =
     (let system = getField item (spanSystem e) in
      if falsy system then True
      else (let typ = splitTypeSystem e system in typ \<in> set typeFilter))"

definition filteredItems :: "env \<Rightarrow> ExploreItem list \<Rightarrow> string list \<Rightarrow> ExploreItem list" where
  "filteredItems e its typeFilter =
     (if length typeFilter = 0 then its
      else filter (keepItem e typeFilter) its)"

section \<open>Date fields\<close>

definition endsWith :: "string \<Rightarrow> string \<Rightarrow> bool" where
  "endsWith s t = (length t \<le> length s \<and> drop (length s - length t) s = t)"

definition hasField :: "string \<Rightarrow> string \<Rightarrow> bool" where
  "hasField s field = (endsWith s (''.'' @ field) \<or> endsWith s (''_'' @ field))"

definition isDateField :: "env \<Rightarrow> string \<Rightarrow> bool" where
  "isDateField e s = (s = spanTime e \<or> hasField s ''time'' \<or> hasField s ''date'')"

text \<open>
  \<^verbatim>\<open>new Date(val)\<close>. A string is parsed; any other value is converted to a number and
  clipped: \<^verbatim>\<open>undefined\<close> gives \<^verbatim>\<open>NaN\<close>, \<^verbatim>\<open>null\<close> gives 0, a number beyond
  \<open>8.64 \<times> 10\<^sup>1\<^sup>5\<close> milliseconds gives \<^verbatim>\<open>NaN\<close>, and a fraction is cut off towards zero.
\<close>

definition timeClip :: "real \<Rightarrow> int option" where
  "timeClip x = (if \<bar>x\<bar> > 8640000000000000 then None
                 else Some (if 0 \<le> x then \<lfloor>x\<rfloor> else \<lceil>x\<rceil>))"

fun newDate :: "env \<Rightarrow> jsval \<Rightarrow> jsval" where
  "newDate e JUndefined = JDate None"
| "newDate e JNull = JDate (Some 0)"
| "newDate e (JBool b) = JDate (Some (if b then 1 else 0))"
| "newDate e (JNum x) = JDate (timeClip x)"
| "newDate e (JStr s) = JDate (dateParse e s)"
| "newDate e (JDate t) = JDate t"

section \<open>The sort step: lodash \<^verbatim>\<open>orderBy\<close>\<close>

text \<open>
  The relational operators of JavaScript on the values of the model. Two strings are
  compared as strings; in every other case both sides are converted to numbers (a
  \<^verbatim>\<open>Date\<close> to its time value) and a \<^verbatim>\<open>NaN\<close> on either side makes the comparison
  false. \<^verbatim>\<open>a > b\<close> is \<^verbatim>\<open>b < a\<close>.
\<close>

fun toNumber :: "env \<Rightarrow> jsval \<Rightarrow> real option" where
  "toNumber e JUndefined = None"
| "toNumber e JNull = Some 0"
| "toNumber e (JBool b) = Some (if b then 1 else 0)"
| "toNumber e (JNum x) = Some x"
| "toNumber e (JStr s) = stringToNumber e s"
| "toNumber e (JDate t) = map_option real_of_int t"

fun js_lt :: "env \<Rightarrow> jsval \<Rightarrow> jsval \<Rightarrow> bool" where
  "js_lt e (JStr s) (JStr t) = (s < t)"
| "js_lt e a b = (case toNumber e a of None \<Rightarrow> False
                  | Some x \<Rightarrow> (case toNumber e b of None \<Rightarrow> False | Some y \<Rightarrow> x < y))"

definition js_gt :: "env \<Rightarrow> jsval \<Rightarrow> jsval \<Rightarrow> bool" where
  "js_gt e a b = js_lt e b a"

text \<open>
  \<^verbatim>\<open>value !== other\<close>. Every sort key of a date column is a \<^verbatim>\<open>Date\<close> object of its
  own, built by one call of \<^verbatim>\<open>new Date\<close>, so two such keys are never the same object.
\<close>

fun strictNotEqual :: "jsval \<Rightarrow> jsval \<Rightarrow> bool" where
  "strictNotEqual (JDate s) (JDate t) = True"
| "strictNotEqual a b = (a \<noteq> b)"

text \<open>
  \<^verbatim>\<open>compareAscending\<close> of lodash, with its conditions in the order of the library.
  No value of the model is a symbol, and every value is equal to itself.
\<close>

definition compareAscending :: "env \<Rightarrow> jsval \<Rightarrow> jsval \<Rightarrow> int" where
  "compareAscending e v other =
     (if strictNotEqual v other then
        (let valIsDefined = (v \<noteq> JUndefined);
             valIsNull = (v = JNull);
             valIsReflexive = True;
             valIsSymbol = False;
             othIsDefined = (other \<noteq> JUndefined);
             othIsNull = (other = JNull);
             othIsReflexive = True;
             othIsSymbol = False
         in
           if (\<not> othIsNull \<and> \<not> othIsSymbol \<and> \<not> valIsSymbol \<and> js_gt e v other) \<or>
              (valIsSymbol \<and> othIsDefined \<and> othIsReflexive \<and> \<not> othIsNull \<and> \<not> othIsSymbol) \<or>
              (valIsNull \<and> othIsDefined \<and> othIsReflexive) \<or>
              (\<not> valIsDefined \<and> othIsReflexive) \<or>
              \<not> valIsReflexive
           then 1
           else if (\<not> valIsNull \<and> \<not> valIsSymbol \<and> \<not> othIsSymbol \<and> js_lt e v other) \<or>
              (othIsSymbol \<and> valIsDefined \<and> valIsReflexive \<and> \<not> valIsNull \<and> \<not> valIsSymbol) \<or>
              (othIsNull \<and> valIsDefined \<and> valIsReflexive) \<or>
              (\<not> othIsDefined \<and> valIsReflexive) \<or>
              \<not> othIsReflexive
           then - 1
           else 0)
      else 0)"

text \<open>
  \<^verbatim>\<open>baseOrderBy\<close> pairs every element with its sort key and its position, and
  \<^verbatim>\<open>compareMultiple\<close> compares two such entries: by the keys, negated for
  \<^verbatim>\<open>'desc'\<close>, and by the positions when the keys tie. The pipeline sorts by one key.
\<close>

record 'a sort_entry =
  criteria :: jsval
  index :: nat
  entry_value :: 'a

definition compareMultiple :: "env \<Rightarrow> string list \<Rightarrow> 'a sort_entry \<Rightarrow> 'a sort_entry \<Rightarrow> int" where
  "compareMultiple e orders object other =
     (let result = compareAscending e (criteria object) (criteria other) in
      if result \<noteq> 0 then
        (case orders of
           [] \<Rightarrow> result
         | ord # _ \<Rightarrow> result * (if ord = ''desc'' then - 1 else 1))
      else int (index object) - int (index other))"

text \<open>
  \<^verbatim>\<open>Array.prototype.sort(comparefn)\<close>, as the V8 engine carries it out on an array of
  fewer than 64 entries, for which its minimal run length is the whole array.
  \<^verbatim>\<open>CountAndMakeRun\<close> takes the longest run at the front of the array that is
  ascending, or strictly descending (it is then reversed), and \<^verbatim>\<open>BinaryInsertionSort\<close>
  puts every further entry into it at the place a binary search finds. \<^verbatim>\<open>comparefn\<close>
  is called with its two arguments in the order in which the engine passes them.
  A longer array, which the engine cuts into several such runs and merges, is sorted by
  the model in the same way; the outcome can differ only where \<^verbatim>\<open>comparefn\<close> does not
  order the entries consistently.
\<close>

fun countRun :: "('a \<Rightarrow> 'a \<Rightarrow> int) \<Rightarrow> bool \<Rightarrow> 'a \<Rightarrow> 'a list \<Rightarrow> nat" where
  "countRun comparefn isDescending previousElement [] = 0"
| "countRun comparefn isDescending previousElement (currentElement # rest) =
     (let order = comparefn currentElement previousElement in
      if (if isDescending then order \<ge> 0 else order < 0) then 0
      else Suc (countRun comparefn isDescending currentElement rest))"

text \<open>The run at the front, made ascending, and the entries that follow it.\<close>

definition countAndMakeRun :: "('a \<Rightarrow> 'a \<Rightarrow> int) \<Rightarrow> 'a list \<Rightarrow> 'a list \<times> 'a list" where
  "countAndMakeRun comparefn workArray =
     (case workArray of
        elementHigh # elementLow # rest \<Rightarrow>
          (let order = comparefn elementLow elementHigh;
               isDescending = (order < 0);
               runLength = 2 + countRun comparefn isDescending elementLow rest
           in (if isDescending then rev (take runLength workArray)
               else take runLength workArray,
               drop runLength workArray))
      | _ \<Rightarrow> (workArray, []))"

text \<open>
  The search for the place of the pivot, and the loop of \<^verbatim>\<open>BinaryInsertionSort\<close>
  around it: \<open>sorted_part\<close> is the front of the array up to \<^verbatim>\<open>start\<close>, the pivot is
  the entry at \<^verbatim>\<open>start\<close>.
\<close>

function binarySearch :: "('a \<Rightarrow> 'a \<Rightarrow> int) \<Rightarrow> 'a \<Rightarrow> 'a list \<Rightarrow> nat \<Rightarrow> nat \<Rightarrow> nat" where
  "binarySearch comparefn pivot workArray left right =
     (if left < right then
        (let mid = left + (right - left) div 2;
             order = comparefn pivot (workArray ! mid)
         in if order < 0 then binarySearch comparefn pivot workArray left mid
            else binarySearch comparefn pivot workArray (mid + 1) right)
      else left)"
  by pat_completeness auto
termination
  by (relation "measure (\<lambda>(comparefn, pivot, workArray, left, right). right - left)") auto

declare binarySearch.simps [simp del]

fun binaryInsertionSort :: "('a \<Rightarrow> 'a \<Rightarrow> int) \<Rightarrow> 'a list \<Rightarrow> 'a list \<Rightarrow> 'a list" where
  "binaryInsertionSort comparefn sorted_part [] = sorted_part"
| "binaryInsertionSort comparefn sorted_part (pivot # rest) =
     (let left = binarySearch comparefn pivot sorted_part 0 (length sorted_part)
      in binaryInsertionSort comparefn
           (take left sorted_part @ pivot # drop left sorted_part) rest)"

definition arraySort :: "('a \<Rightarrow> 'a \<Rightarrow> int) \<Rightarrow> 'a list \<Rightarrow> 'a list" where
  "arraySort comparefn xs =
     (if length xs < 2 then xs
      else (case countAndMakeRun comparefn xs of
              (front, rest) \<Rightarrow> binaryInsertionSort comparefn front rest))"

definition baseMap :: "('a \<Rightarrow> jsval) \<Rightarrow> 'a list \<Rightarrow> 'a sort_entry list" where
  "baseMap iteratee collection =
     map (\<lambda>(i, v). \<lparr>criteria = iteratee v, index = i, entry_value = v\<rparr>)
       (zip [0..<length collection] collection)"

definition orderBy :: "env \<Rightarrow> 'a list \<Rightarrow> ('a \<Rightarrow> jsval) \<Rightarrow> string list \<Rightarrow> 'a list" where
  "orderBy e collection iteratee orders =
     map entry_value (arraySort (compareMultiple e orders) (baseMap iteratee collection))"

text \<open>The iteratee of \<^verbatim>\<open>sortedItems\<close>: the sort key of an item under a column.\<close>

definition sortKey :: "env \<Rightarrow> string \<Rightarrow> ExploreItem \<Rightarrow> jsval" where
  "sortKey e col item =
     (let isDate = isDateField e col; val = getField item col in
      if isDate then newDate e val else val)"

text \<open>\<^verbatim>\<open>!order.column\<close> holds for a missing column and for the empty string.\<close>

definition sortedItems :: "env \<Rightarrow> Order \<Rightarrow> ExploreItem list \<Rightarrow> ExploreItem list" where
  "sortedItems e order fitems =
     (case column order of
        None \<Rightarrow> fitems
      | Some col \<Rightarrow>
          if col = [] then fitems
          else orderBy e fitems (sortKey e col) [if desc order then ''desc'' else ''asc''])"

section \<open>The page\<close>

text \<open>
  \<^verbatim>\<open>Array.prototype.slice(start, end)\<close>: a negative bound counts from the end, both
  bounds are clamped to the array, and an empty range gives the empty array.
\<close>

definition slice :: "'a list \<Rightarrow> int \<Rightarrow> int \<Rightarrow> 'a list" where
  "slice xs start fin =
     (let len = int (length xs);
          k = (if start < 0 then max (len + start) 0 else min start len);
          final = (if fin < 0 then max (len + fin) 0 else min fin len);
          count = max (final - k) 0
      in take (nat count) (drop (nat k) xs))"

definition pageItems :: "env \<Rightarrow> Pager \<Rightarrow> ExploreItem list \<Rightarrow> ExploreItem list" where
  "pageItems e pager sorted_items =
     slice sorted_items (pos_start (pos e pager)) (pos_end (pos e pager))"

section \<open>Query parts, columns and the error projection\<close>

text \<open>\<^verbatim>\<open>data.value?.queryParts\<close>, with no default: \<open>None\<close> is \<^verbatim>\<open>undefined\<close>.\<close>

definition queryParts :: "QueryResult option \<Rightarrow> QueryPart list option" where
  "queryParts d = (case d of None \<Rightarrow> None | Some r \<Rightarrow> queryParts_of r)"

definition columns :: "QueryResult option \<Rightarrow> ColumnInfo list" where
  "columns d = (case d of None \<Rightarrow> []
                | Some r \<Rightarrow> (case columns_of r of None \<Rightarrow> [] | Some c \<Rightarrow> c))"

definition groupColumns :: "QueryResult option \<Rightarrow> ColumnInfo list" where
  "groupColumns d = filter isGroup (columns d)"

definition plotColumns :: "QueryResult option \<Rightarrow> ColumnInfo list" where
  "plotColumns d = filter isNum (columns d)"

text \<open>
  \<^verbatim>\<open>error.value?.response?.data\<close>: the chain stops at the first part that is missing.
\<close>

definition errorData :: "QueryError option \<Rightarrow> ErrorData option" where
  "errorData err =
     (case err of None \<Rightarrow> None
      | Some er \<Rightarrow> (case response er of None \<Rightarrow> None | Some r \<Rightarrow> response_data r))"

text \<open>\<^verbatim>\<open>x ?? ''\<close>: the default replaces \<^verbatim>\<open>undefined\<close> and \<^verbatim>\<open>null\<close> only.\<close>

definition orEmpty :: "jsval option \<Rightarrow> jsval" where
  "orEmpty x = (case x of None \<Rightarrow> JStr []
                | Some v \<Rightarrow> if v = JUndefined \<or> v = JNull then JStr [] else v)"

definition errorMessage :: "QueryError option \<Rightarrow> jsval" where
  "errorMessage err = orEmpty (map_option message (errorData err))"

definition errorCode :: "QueryError option \<Rightarrow> jsval" where
  "errorCode err = orEmpty (map_option code (errorData err))"

definition query :: "env \<Rightarrow> QueryError option \<Rightarrow> string" where
  "query e err = format e (orEmpty (map_option query_of (errorData err)))"

section \<open>Type aggregation\<close>

text \<open>
  \<^verbatim>\<open>typeMap\<close> is an object used as a dictionary. Its entries are kept in the order in
  which \<^verbatim>\<open>for (let type in typeMap)\<close> visits them: the keys that are array indices
  first, in ascending numeric order, then every other key in the order of creation.
\<close>

definition isDigit :: "char \<Rightarrow> bool" where
  "isDigit c = (CHR ''0'' \<le> c \<and> c \<le> CHR ''9'')"

definition digitsValue :: "string \<Rightarrow> nat" where
  "digitsValue s = fold (\<lambda>c n. 10 * n + (of_char c - 48)) s 0"

definition arrayIndex :: "string \<Rightarrow> nat option" where
  "arrayIndex s =
     (if s \<noteq> [] \<and> list_all isDigit s \<and> (s = ''0'' \<or> hd s \<noteq> CHR ''0'')
         \<and> digitsValue s < 4294967295
      then Some (digitsValue s) else None)"

fun insertIndexKey :: "nat \<Rightarrow> string \<times> TypeItem \<Rightarrow> (string \<times> TypeItem) list
    \<Rightarrow> (string \<times> TypeItem) list" where
  "insertIndexKey n kv [] = [kv]"
| "insertIndexKey n kv ((k, v) # rest) =
     (case arrayIndex k of
        None \<Rightarrow> kv # (k, v) # rest
      | Some m \<Rightarrow> if m < n then (k, v) # insertIndexKey n kv rest else kv # (k, v) # rest)"

text \<open>\<^verbatim>\<open>typeMap[type] = typeItem\<close> for a key that is not yet there.\<close>

definition defineKey :: "(string \<times> TypeItem) list \<Rightarrow> string \<Rightarrow> TypeItem
    \<Rightarrow> (string \<times> TypeItem) list" where
  "defineKey typeMap k v =
     (case arrayIndex k of
        None \<Rightarrow> typeMap @ [(k, v)]
      | Some n \<Rightarrow> insertIndexKey n (k, v) typeMap)"

text \<open>
  One round of the loop over \<^verbatim>\<open>items.value\<close>. \<^verbatim>\<open>typeItem.numGroup++\<close> writes through
  to the entry of the dictionary, since \<^verbatim>\<open>typeItem\<close> is that very object.
\<close>

definition typesStep :: "env \<Rightarrow> ExploreItem \<Rightarrow> (string \<times> TypeItem) list
    \<Rightarrow> (string \<times> TypeItem) list" where
  "typesStep e item typeMap =
     (let system = getField item (spanSystem e) in
      if falsy system then typeMap
      else
        (let ty = splitTypeSystem e system;
             typeMap1 = (case map_of typeMap ty of
                           None \<Rightarrow> defineKey typeMap ty \<lparr>type = ty, numGroup = 0\<rparr>
                         | Some typeItem \<Rightarrow> typeMap)
         in map (\<lambda>(k, v). if k = ty then (k, v\<lparr>numGroup := numGroup v + 1\<rparr>) else (k, v))
              typeMap1))"

text \<open>
  \<^verbatim>\<open>orderBy(types, 'type')\<close> builds a sorted copy and leaves \<^verbatim>\<open>types\<close> as it is; the
  copy is not used, and \<^verbatim>\<open>types\<close> is returned.
\<close>

definition types :: "env \<Rightarrow> ExploreItem list \<Rightarrow> TypeItem list" where
  "types e its =
     (let typeMap = fold (typesStep e) its [];
          tys = map snd typeMap;
          ordered = orderBy e tys (\<lambda>t. JStr (type t)) []
      in tys)"

section \<open>Keeping the pager's count\<close>

text \<open>The callbacks of the two watchers, on \<^verbatim>\<open>items\<close> and on \<^verbatim>\<open>filteredItems\<close>.\<close>

definition watchItems :: "ExploreItem list \<Rightarrow> Pager \<Rightarrow> Pager" where
  "watchItems its pager = pager\<lparr>numItem := length its\<rparr>"

definition watchFilteredItems :: "ExploreItem list \<Rightarrow> Pager \<Rightarrow> Pager" where
  "watchFilteredItems its pager = pager\<lparr>numItem := length its\<rparr>"

text \<open>
  The reactive state the watchers depend on, and the writes that reach it from outside:
  the fetcher replaces \<^verbatim>\<open>data\<close>, the user interface replaces \<^verbatim>\<open>typeFilter\<close> and turns
  the page.
\<close>

record State =
  st_data :: "QueryResult option"
  st_typeFilter :: "string list"
  st_pager :: Pager

datatype change = SetData "QueryResult option" | SetTypeFilter "string list" | SetPage int

fun applyWrite :: "change \<Rightarrow> State \<Rightarrow> State" where
  "applyWrite (SetData d) s = s\<lparr>st_data := d\<rparr>"
| "applyWrite (SetTypeFilter f) s = s\<lparr>st_typeFilter := f\<rparr>"
| "applyWrite (SetPage n) s = s\<lparr>st_pager := (st_pager s)\<lparr>page := n\<rparr>\<rparr>"

fun touchesItems :: "change \<Rightarrow> bool" where
  "touchesItems (SetData d) = True"
| "touchesItems w = False"

fun touchesFilteredItems :: "change \<Rightarrow> bool" where
  "touchesFilteredItems (SetData d) = True"
| "touchesFilteredItems (SetTypeFilter f) = True"
| "touchesFilteredItems w = False"

text \<open>
  \<^verbatim>\<open>useSpanExplore\<close> starts with an empty type filter and registers the watcher on
  \<^verbatim>\<open>items\<close>, then the watcher on \<^verbatim>\<open>filteredItems\<close>. With \<^verbatim>\<open>immediate: true\<close> each
  callback runs once at its registration.
\<close>

definition useSpanExplore :: "env \<Rightarrow> QueryResult option \<Rightarrow> Pager \<Rightarrow> State" where
  "useSpanExplore e d pager =
     (let pager1 = watchItems (items d) pager;
          pager2 = watchFilteredItems (filteredItems e (items d) []) pager1
      in \<lparr>st_data = d, st_typeFilter = [], st_pager = pager2\<rparr>)"

text \<open>
  One recomputation pass: a batch of writes, then the flush of the watchers
  (\<^verbatim>\<open>flush: 'pre'\<close>). A watcher runs when a write has reached what its source is
  computed from, and the watchers run in the order of their registration.
\<close>

definition pass :: "env \<Rightarrow> State \<Rightarrow> change list \<Rightarrow> State" where
  "pass e s ws =
     (let s1 = fold applyWrite ws s;
          its = items (st_data s1);
          pager1 = (if list_ex touchesItems ws then watchItems its (st_pager s1)
                    else st_pager s1);
          pager2 = (if list_ex touchesFilteredItems ws
                    then watchFilteredItems (filteredItems e its (st_typeFilter s1)) pager1
                    else pager1)
      in s1\<lparr>st_pager := pager2\<rparr>)"

definition run :: "env \<Rightarrow> QueryResult option \<Rightarrow> Pager \<Rightarrow> change list list \<Rightarrow> State" where
  "run e d pager passes = foldl (pass e) (useSpanExplore e d pager) passes"

text \<open>The pager's count agrees with the filtered items of the state.\<close>

definition inSync :: "env \<Rightarrow> State \<Rightarrow> bool" where
  "inSync e s =
     (numItem (st_pager s) = length (filteredItems e (items (st_data s)) (st_typeFilter s)))"

section \<open>Auxiliary notions for the statements\<close>

text \<open>The time value of a valid \<^verbatim>\<open>Date\<close>.\<close>

fun dateTime :: "jsval \<Rightarrow> int" where
  "dateTime (JDate (Some t)) = t"
| "dateTime v = 0"

fun validDate :: "jsval \<Rightarrow> bool" where
  "validDate (JDate (Some t)) = True"
| "validDate v = False"

text \<open>
  A comparison orders the members of a set consistently when it never contradicts
  itself on two of them and is transitive on three.
\<close>

definition consistentOn :: "('a \<Rightarrow> 'a \<Rightarrow> int) \<Rightarrow> 'a set \<Rightarrow> bool" where
  "consistentOn c S =
     ((\<forall>x\<in>S. \<forall>y\<in>S. (c x y < 0) = (c y x > 0)) \<and>
      (\<forall>x\<in>S. \<forall>y\<in>S. \<forall>z\<in>S. c x y \<le> 0 \<and> c y z \<le> 0 \<longrightarrow> c x z \<le> 0))"

text \<open>The occurrences of two items in a list, in the order in which they stand there.\<close>

definition relativeOrder :: "'a \<Rightarrow> 'a \<Rightarrow> 'a list \<Rightarrow> 'a list" where
  "relativeOrder a b xs = filter (\<lambda>x. x = a \<or> x = b) xs"

text \<open>
  Following the words of the specification, not the code: the timestamp by which an
  item of a date column would be compared if an unparseable value counted as epoch 0.
\<close>

definition claimedTime :: "env \<Rightarrow> string \<Rightarrow> ExploreItem \<Rightarrow> int" where
  "claimedTime e col item =
     (case newDate e (getField item col) of JDate (Some t) \<Rightarrow> t | _ \<Rightarrow> 0)"

section \<open>Sample data\<close>

text \<open>
  One choice of the collaborators, for the examples: type and subsystem are separated by
  a dot, the pager shows \<open>perPage\<close> items from \<open>(page - 1) * perPage\<close> on, and the
  three functions on strings are given on the strings the examples use, where
  \<open>sampleEnv\<close> agrees with \<^verbatim>\<open>Date.parse\<close> and with the conversion to a number.
\<close>

definition sampleEnv :: env where
  "sampleEnv =
     \<lparr>spanSystem = ''span.system'',
      spanTime = ''span.time'',
      splitTypeSystem =
        (\<lambda>v. case v of JStr s \<Rightarrow> takeWhile (\<lambda>c. c \<noteq> CHR ''.'') s | _ \<Rightarrow> []),
      pos = (\<lambda>p. \<lparr>pos_start = (page p - 1) * perPage p,
                   pos_end = (page p - 1) * perPage p + perPage p\<rparr>),
      format = (\<lambda>v. case v of JStr s \<Rightarrow> s | _ \<Rightarrow> []),
      dateParse = map_of [(''1970-01-01T00:00:01.000Z'', 1000),
                          (''1970-01-01T00:00:02.000Z'', 2000)],
      stringToNumber = map_of [(''0'', 0), (''1'', 1)]\<rparr>"

definition itemA :: ExploreItem where
  "itemA = [(''span.system'', JStr ''db.postgres''), (''count'', JNum 3),
            (''span.time'', JNum 1000)]"

definition itemB :: ExploreItem where
  "itemB = [(''span.system'', JStr ''http.client''), (''count'', JNum 1),
            (''span.time'', JStr ''n/a'')]"

definition itemC :: ExploreItem where
  "itemC = [(''span.system'', JStr ''db.mysql''), (''count'', JNum 1),
            (''span.time'', JStr ''1970-01-01T00:00:02.000Z'')]"

text \<open>Seven items with a time column; the fourth does not parse.\<close>

definition row1 :: ExploreItem where
  "row1 = [(''id'', JStr ''r1''), (''span.time'', JNum 1)]"

definition row2 :: ExploreItem where
  "row2 = [(''id'', JStr ''r2''), (''span.time'', JNum 2)]"

definition row3 :: ExploreItem where
  "row3 = [(''id'', JStr ''r3''), (''span.time'', JNum 3000)]"

definition row4 :: ExploreItem where
  "row4 = [(''id'', JStr ''r4''), (''span.time'', JStr ''n/a'')]"

definition row5 :: ExploreItem where
  "row5 = [(''id'', JStr ''r5''), (''span.time'', JNum 1000)]"

definition row6 :: ExploreItem where
  "row6 = [(''id'', JStr ''r6''), (''span.time'', JNum 0)]"

definition row7 :: ExploreItem where
  "row7 = [(''id'', JStr ''r7''), (''span.time'', JNum 1000)]"

definition sampleResult :: QueryResult where
  "sampleResult = \<lparr>groups = Some [itemA, itemB, itemC], columns_of = None,
                    queryParts_of = None\<rparr>"

definition samplePager :: Pager where
  "samplePager = \<lparr>page = 1, perPage = 2, numItem = 0\<rparr>"

lemmas sample_defs =
  sampleEnv_def itemA_def itemB_def itemC_def sampleResult_def samplePager_def getField_def

lemmas row_defs =
  row1_def row2_def row3_def row4_def row5_def row6_def row7_def

lemmas sort_defs =
  sortedItems_def orderBy_def baseMap_def arraySort_def countAndMakeRun_def
  compareMultiple_def
  compareAscending_def js_gt_def sortKey_def isDateField_def hasField_def endsWith_def
  timeClip_def

lemma upt_small: "[0..<2] = [0, 1]" "[0..<3] = [0, 1, 2]"
  by (simp_all add: upt_rec)

section \<open>Filtering\<close>

text \<open>
  C5. With the empty type filter the filter step returns the item collection it was
  given, unchanged.
\<close>

theorem filteredItems_empty_filter: "filteredItems e its [] = its"
  by (simp add: filteredItems_def)

text \<open>
  What \<^verbatim>\<open>!system\<close> accepts. For a system field that is a string or is missing, these
  are the missing field, \<^verbatim>\<open>null\<close> and the empty string.
\<close>

lemma falsy_iff:
  "falsy v \<longleftrightarrow> v = JUndefined \<or> v = JNull \<or> v = JBool False \<or> v = JNum 0 \<or> v = JStr []"
  by (cases v) auto

text \<open>
  C4. With a non-empty type filter \<open>F\<close>, an item of \<open>I\<close> is among the filtered items
  if and only if its system field is absent or empty (\<^verbatim>\<open>!system\<close>) or the type
  classified from its system field is a member of \<open>F\<close>.
\<close>

theorem filteredItems_member_iff:
  assumes "F \<noteq> []" and "item \<in> set I"
  shows "item \<in> set (filteredItems e I F) \<longleftrightarrow>
         (falsy (getField item (spanSystem e)) \<or>
          splitTypeSystem e (getField item (spanSystem e)) \<in> set F)"
  using assms by (auto simp: filteredItems_def keepItem_def Let_def)

theorem filteredItems_member_iff_witness:
  "[''db''] \<noteq> [] \<and> itemB \<in> set [itemA, itemB, itemC] \<and>
   itemB \<notin> set (filteredItems sampleEnv [itemA, itemB, itemC] [''db'']) \<and>
   \<not> falsy (getField itemB (spanSystem sampleEnv)) \<and>
   splitTypeSystem sampleEnv (getField itemB (spanSystem sampleEnv)) \<notin> set [''db'']"
  using filteredItems_member_iff [of "[''db'']" itemB "[itemA, itemB, itemC]" sampleEnv]
  by (simp add: sample_defs)

section \<open>Sorting: permutation\<close>

text \<open>
  C6. With no order column the sort step is the identity.
\<close>

theorem sortedItems_no_column: "sortedItems e (order\<lparr>column := None\<rparr>) its = its"
  by (simp add: sortedItems_def)

text \<open>The sort returns the entries it was given, whatever the comparison.\<close>

lemma mset_take_drop: "mset (take n xs) + mset (drop n xs) = mset xs"
  by (metis append_take_drop_id mset_append)

lemma mset_insert_at: "mset (take k ps @ p # drop k ps) = add_mset p (mset ps)"
  by (simp add: mset_take_drop)

lemma mset_binaryInsertionSort:
  "mset (binaryInsertionSort c ps rest) = mset ps + mset rest"
  by (induction rest arbitrary: ps) (simp_all add: Let_def mset_take_drop)

lemma mset_countAndMakeRun:
  "countAndMakeRun c xs = (front, rest) \<Longrightarrow> mset front + mset rest = mset xs"
  unfolding countAndMakeRun_def Let_def
  by (auto split: list.splits if_splits simp: mset_take_drop simp del: take_Suc_Cons drop_Suc_Cons)

lemma mset_arraySort: "mset (arraySort c xs) = mset xs"
proof (cases "length xs < 2")
  case True
  then show ?thesis by (simp add: arraySort_def)
next
  case False
  obtain front rest where cr: "countAndMakeRun c xs = (front, rest)"
    by (cases "countAndMakeRun c xs")
  with False show ?thesis
    by (simp add: arraySort_def mset_binaryInsertionSort mset_countAndMakeRun)
qed

lemma set_arraySort: "set (arraySort c xs) = set xs"
  using mset_arraySort [of c xs] by (metis set_mset_mset)

lemma length_baseMap: "length (baseMap f xs) = length xs"
  by (simp add: baseMap_def)

lemma nth_baseMap:
  "i < length xs \<Longrightarrow>
   baseMap f xs ! i = \<lparr>criteria = f (xs ! i), index = i, entry_value = xs ! i\<rparr>"
  by (simp add: baseMap_def)

lemma entry_value_baseMap: "map entry_value (baseMap f xs) = xs"
  by (rule nth_equalityI) (simp_all add: length_baseMap nth_baseMap)

lemma index_baseMap: "map index (baseMap f xs) = [0..<length xs]"
  by (rule nth_equalityI) (simp_all add: length_baseMap nth_baseMap)

lemma criteria_baseMap:
  "en \<in> set (baseMap f xs) \<Longrightarrow> criteria en = f (entry_value en)"
  by (auto simp: in_set_conv_nth length_baseMap nth_baseMap)

lemma entry_value_in_baseMap:
  "en \<in> set (baseMap f xs) \<Longrightarrow> entry_value en \<in> set xs"
  by (auto simp: in_set_conv_nth length_baseMap nth_baseMap)

lemma mset_orderBy: "mset (orderBy e xs f os) = mset xs"
proof -
  let ?zs = "arraySort (compareMultiple e os) (baseMap f xs)"
  have "mset (map entry_value ?zs) = image_mset entry_value (mset ?zs)"
    by simp
  also have "\<dots> = image_mset entry_value (mset (baseMap f xs))"
    by (simp only: mset_arraySort)
  also have "\<dots> = mset (map entry_value (baseMap f xs))"
    by simp
  finally show ?thesis
    by (simp add: orderBy_def entry_value_baseMap)
qed

lemma set_orderBy: "set (orderBy e xs f os) = set xs"
  using mset_orderBy [of e xs f os] by (metis set_mset_mset)

lemma mset_sortedItems: "mset (sortedItems e order xs) = mset xs"
  by (auto simp: sortedItems_def mset_orderBy split: option.splits)

lemma slice_contiguous: "\<exists>pre post. xs = pre @ slice xs a b @ post"
proof -
  obtain k n where s: "slice xs a b = take n (drop k xs)"
    unfolding slice_def Let_def by blast
  have "xs = take k xs @ take n (drop k xs) @ drop n (drop k xs)"
    by (simp only: append_take_drop_id)
  with s show ?thesis by metis
qed

text \<open>
  C3. Whatever the raw items, the type filter, the order and the position of the pager:
  the page is a contiguous stretch of the sorted items, the sorted items are a
  permutation of the filtered items, and every filtered item is one of the raw items.
\<close>

theorem views_related:
  "(\<exists>pre post. sortedItems e order (filteredItems e its tf)
       = pre @ pageItems e pager (sortedItems e order (filteredItems e its tf)) @ post) \<and>
   mset (sortedItems e order (filteredItems e its tf)) = mset (filteredItems e its tf) \<and>
   set (filteredItems e its tf) \<subseteq> set its"
proof -
  have "set (filteredItems e its tf) \<subseteq> set its"
    by (auto simp: filteredItems_def)
  then show ?thesis
    by (simp add: pageItems_def slice_contiguous mset_sortedItems)
qed

section \<open>Sorting under a consistent comparison\<close>

lemma consistentOn_sym:
  "consistentOn c S \<Longrightarrow> x \<in> S \<Longrightarrow> y \<in> S \<Longrightarrow> (c x y < 0) = (c y x > 0)"
  by (simp add: consistentOn_def)

lemma consistentOn_trans:
  "consistentOn c S \<Longrightarrow> x \<in> S \<Longrightarrow> y \<in> S \<Longrightarrow> z \<in> S \<Longrightarrow>
   c x y \<le> 0 \<Longrightarrow> c y z \<le> 0 \<Longrightarrow> c x z \<le> 0"
  unfolding consistentOn_def by blast

lemma consistentOn_flip:
  assumes "consistentOn c S" "x \<in> S" "y \<in> S" "c x y \<ge> 0"
  shows "c y x \<le> 0"
  using consistentOn_sym [OF assms(1) assms(2) assms(3)] assms(4) by auto

lemma consistentOn_less_trans:
  assumes cs: "consistentOn c S" and m: "x \<in> S" "y \<in> S" "z \<in> S"
    and xy: "c x y < 0" and yz: "c y z \<le> 0"
  shows "c x z < 0"
proof (rule ccontr)
  assume "\<not> c x z < 0"
  then have "c z x \<le> 0" using consistentOn_flip [OF cs m(1) m(3)] by simp
  with yz have "c y x \<le> 0" using consistentOn_trans [OF cs m(2) m(3) m(1)] by simp
  moreover from xy have "c y x > 0" using consistentOn_sym [OF cs m(1) m(2)] by simp
  ultimately show False by simp
qed

lemma consistentOn_subset: "consistentOn c S \<Longrightarrow> T \<subseteq> S \<Longrightarrow> consistentOn c T"
  unfolding consistentOn_def by blast

lemma countRun_ascending:
  assumes "consistentOn c S" "prev \<in> S" "set xs \<subseteq> S"
  shows "sorted_wrt (\<lambda>a b. c a b \<le> 0) (prev # take (countRun c False prev xs) xs)"
  using assms(2,3)
proof (induction xs arbitrary: prev)
  case Nil
  then show ?case by simp
next
  case (Cons x xs)
  show ?case
  proof (cases "c x prev < 0")
    case True
    then show ?thesis by simp
  next
    case False
    let ?n = "countRun c False x xs"
    from Cons have ih: "sorted_wrt (\<lambda>a b. c a b \<le> 0) (x # take ?n xs)" by simp
    from False have px: "c prev x \<le> 0"
      using consistentOn_flip [OF assms(1), of x prev] Cons.prems by simp
    have "c prev y \<le> 0" if "y \<in> set (take ?n xs)" for y
    proof -
      from that have yS: "y \<in> S" using Cons.prems by (auto dest: in_set_takeD)
      from ih that have "c x y \<le> 0" by simp
      with px show ?thesis
        using consistentOn_trans [OF assms(1), of prev x y] Cons.prems yS by simp
    qed
    with ih px False show ?thesis by (simp add: Let_def)
  qed
qed

lemma countRun_descending:
  assumes "consistentOn c S" "prev \<in> S" "set xs \<subseteq> S"
  shows "sorted_wrt (\<lambda>a b. c b a \<le> 0) (prev # take (countRun c True prev xs) xs)"
  using assms(2,3)
proof (induction xs arbitrary: prev)
  case Nil
  then show ?case by simp
next
  case (Cons x xs)
  show ?case
  proof (cases "c x prev \<ge> 0")
    case True
    then show ?thesis by simp
  next
    case False
    let ?n = "countRun c True x xs"
    from Cons have ih: "sorted_wrt (\<lambda>a b. c b a \<le> 0) (x # take ?n xs)" by simp
    from False have px: "c x prev \<le> 0" by simp
    have "c y prev \<le> 0" if "y \<in> set (take ?n xs)" for y
    proof -
      from that have yS: "y \<in> S" using Cons.prems by (auto dest: in_set_takeD)
      from ih that have "c y x \<le> 0" by simp
      with px show ?thesis
        using consistentOn_trans [OF assms(1), of y x prev] Cons.prems yS by simp
    qed
    with ih px False show ?thesis by (simp add: Let_def)
  qed
qed

lemma countAndMakeRun_sorted:
  assumes cs: "consistentOn c (set xs)" and cr: "countAndMakeRun c xs = (front, rest)"
  shows "sorted_wrt (\<lambda>a b. c a b \<le> 0) front"
proof (cases xs)
  case Nil
  with cr show ?thesis by (auto simp: countAndMakeRun_def)
next
  case (Cons hi tl)
  note xs = this
  show ?thesis
  proof (cases tl)
    case Nil
    with xs cr show ?thesis by (auto simp: countAndMakeRun_def)
  next
    case (Cons lo rest')
    have mem: "hi \<in> set xs" "lo \<in> set xs" "set rest' \<subseteq> set xs"
      using xs Cons by auto
    show ?thesis
    proof (cases "c lo hi < 0")
      case True
      let ?n = "countRun c True lo rest'"
      have front: "front = rev (hi # lo # take ?n rest')"
        using cr xs Cons True by (simp add: countAndMakeRun_def Let_def)
      have d: "sorted_wrt (\<lambda>a b. c b a \<le> 0) (lo # take ?n rest')"
        by (rule countRun_descending [OF cs mem(2,3)])
      have "c y hi \<le> 0" if "y \<in> set (take ?n rest')" for y
      proof -
        from that have yS: "y \<in> set xs" using mem(3) by (auto dest: in_set_takeD)
        from d that have "c y lo \<le> 0" by simp
        with True show ?thesis
          using consistentOn_trans [OF cs yS mem(2) mem(1)] by simp
      qed
      with d True have "sorted_wrt (\<lambda>a b. c b a \<le> 0) (hi # lo # take ?n rest')"
        by simp
      then show ?thesis unfolding front by (simp only: sorted_wrt_rev)
    next
      case False
      let ?n = "countRun c False lo rest'"
      have front: "front = hi # lo # take ?n rest'"
        using cr xs Cons False by (simp add: countAndMakeRun_def Let_def)
      have a: "sorted_wrt (\<lambda>a b. c a b \<le> 0) (lo # take ?n rest')"
        by (rule countRun_ascending [OF cs mem(2,3)])
      from False have hl: "c hi lo \<le> 0"
        using consistentOn_flip [OF cs mem(2) mem(1)] by simp
      have "c hi y \<le> 0" if "y \<in> set (take ?n rest')" for y
      proof -
        from that have yS: "y \<in> set xs" using mem(3) by (auto dest: in_set_takeD)
        from a that have "c lo y \<le> 0" by simp
        with hl show ?thesis
          using consistentOn_trans [OF cs mem(1) mem(2) yS] by simp
      qed
      with a hl show ?thesis unfolding front by simp
    qed
  qed
qed

lemma binarySearch_spec:
  assumes "consistentOn c S" "p \<in> S" "set ps \<subseteq> S"
    and "sorted_wrt (\<lambda>a b. c a b \<le> 0) ps"
    and "l \<le> r" "r \<le> length ps"
    and "\<forall>x\<in>set (take l ps). c x p \<le> 0"
    and "\<forall>y\<in>set (drop r ps). c p y < 0"
  shows "(\<forall>x\<in>set (take (binarySearch c p ps l r) ps). c x p \<le> 0) \<and>
         (\<forall>y\<in>set (drop (binarySearch c p ps l r) ps). c p y < 0)"
  using assms
proof (induction c p ps l r rule: binarySearch.induct)
  case (1 c p ps l r)
  show ?case
  proof (cases "l < r")
    case False
    with "1.prems" have "l = r" by simp
    with "1.prems" False show ?thesis by (simp add: binarySearch.simps)
  next
    case True
    let ?mid = "l + (r - l) div 2"
    have mid: "l \<le> ?mid" "?mid < r" "?mid < length ps"
      using True "1.prems"(6) by auto
    have mS: "ps ! ?mid \<in> S" using mid "1.prems"(3) by (auto simp: subset_iff)
    note cs = "1.prems"(1) and pS = "1.prems"(2)
    show ?thesis
    proof (cases "c p (ps ! ?mid) < 0")
      case lt: True
      have d: "drop ?mid ps = ps ! ?mid # drop (Suc ?mid) ps"
        using mid by (simp add: Cons_nth_drop_Suc)
      have "sorted_wrt (\<lambda>a b. c a b \<le> 0) (drop ?mid ps)"
        using "1.prems"(4) by (rule sorted_wrt_drop)
      then have after: "\<forall>y\<in>set (drop (Suc ?mid) ps). c (ps ! ?mid) y \<le> 0"
        unfolding d by simp
      have "c p y < 0" if "y \<in> set (drop ?mid ps)" for y
      proof -
        from that have "y = ps ! ?mid \<or> y \<in> set (drop (Suc ?mid) ps)"
          unfolding d by simp
        then show ?thesis
        proof
          assume "y = ps ! ?mid" with lt show ?thesis by simp
        next
          assume m: "y \<in> set (drop (Suc ?mid) ps)"
          then have yS: "y \<in> S" using "1.prems"(3) by (auto dest: in_set_dropD)
          from m after have "c (ps ! ?mid) y \<le> 0" by simp
          with lt show ?thesis
            using consistentOn_less_trans [OF cs pS mS yS] by simp
        qed
      qed
      then have "\<forall>y\<in>set (drop ?mid ps). c p y < 0" by simp
      with "1.IH"(1) [OF True refl refl lt cs pS "1.prems"(3,4)] mid "1.prems"(7)
      have "(\<forall>x\<in>set (take (binarySearch c p ps l ?mid) ps). c x p \<le> 0) \<and>
            (\<forall>y\<in>set (drop (binarySearch c p ps l ?mid) ps). c p y < 0)"
        by simp
      moreover have "binarySearch c p ps l r = binarySearch c p ps l ?mid"
        using True lt by (subst binarySearch.simps) (simp add: Let_def)
      ultimately show ?thesis by simp
    next
      case ge: False
      have t: "take (Suc ?mid) ps = take ?mid ps @ [ps ! ?mid]"
        using mid by (simp add: take_Suc_conv_app_nth)
      have "sorted_wrt (\<lambda>a b. c a b \<le> 0) (take (Suc ?mid) ps)"
        using "1.prems"(4) by (rule sorted_wrt_take)
      then have before: "\<forall>x\<in>set (take ?mid ps). c x (ps ! ?mid) \<le> 0"
        unfolding t by (simp add: sorted_wrt_append)
      from ge have mp: "c (ps ! ?mid) p \<le> 0"
        using consistentOn_flip [OF cs pS mS] by simp
      have "c x p \<le> 0" if "x \<in> set (take (Suc ?mid) ps)" for x
      proof -
        from that have "x = ps ! ?mid \<or> x \<in> set (take ?mid ps)"
          unfolding t by auto
        then show ?thesis
        proof
          assume "x = ps ! ?mid" with mp show ?thesis by simp
        next
          assume m: "x \<in> set (take ?mid ps)"
          then have xS: "x \<in> S" using "1.prems"(3) by (auto dest: in_set_takeD)
          from m before have "c x (ps ! ?mid) \<le> 0" by simp
          with mp show ?thesis
            using consistentOn_trans [OF cs xS mS pS] by simp
        qed
      qed
      then have "\<forall>x\<in>set (take (?mid + 1) ps). c x p \<le> 0" by simp
      with "1.IH"(2) [OF True refl refl ge cs pS "1.prems"(3,4)] mid "1.prems"(6,8)
      have "(\<forall>x\<in>set (take (binarySearch c p ps (?mid + 1) r) ps). c x p \<le> 0) \<and>
            (\<forall>y\<in>set (drop (binarySearch c p ps (?mid + 1) r) ps). c p y < 0)"
        by simp
      moreover have "binarySearch c p ps l r = binarySearch c p ps (?mid + 1) r"
        using True ge by (subst binarySearch.simps) (simp add: Let_def)
      ultimately show ?thesis by simp
    qed
  qed
qed

lemma insert_at_sorted:
  assumes "sorted_wrt (\<lambda>a b. c a b \<le> (0::int)) ps"
    and "\<forall>x\<in>set (take k ps). c x p \<le> 0"
    and "\<forall>y\<in>set (drop k ps). c p y < 0"
  shows "sorted_wrt (\<lambda>a b. c a b \<le> 0) (take k ps @ p # drop k ps)"
proof -
  have "sorted_wrt (\<lambda>a b. c a b \<le> 0) (take k ps @ drop k ps)"
    using assms(1) by simp
  then have parts: "sorted_wrt (\<lambda>a b. c a b \<le> 0) (take k ps)"
    "sorted_wrt (\<lambda>a b. c a b \<le> 0) (drop k ps)"
    "\<forall>x\<in>set (take k ps). \<forall>y\<in>set (drop k ps). c x y \<le> 0"
    unfolding sorted_wrt_append by auto
  from assms(3) have "\<forall>y\<in>set (drop k ps). c p y \<le> 0" by auto
  with parts assms(2) show ?thesis
    unfolding sorted_wrt_append by simp
qed

lemma binaryInsertionSort_sorted:
  assumes "consistentOn c S"
  shows "set ps \<subseteq> S \<Longrightarrow> set rest \<subseteq> S \<Longrightarrow> sorted_wrt (\<lambda>a b. c a b \<le> 0) ps \<Longrightarrow>
         sorted_wrt (\<lambda>a b. c a b \<le> 0) (binaryInsertionSort c ps rest)"
proof (induction rest arbitrary: ps)
  case Nil
  then show ?case by simp
next
  case (Cons p rest)
  let ?k = "binarySearch c p ps 0 (length ps)"
  have pS: "p \<in> S" using Cons.prems(2) by simp
  have spec: "(\<forall>x\<in>set (take ?k ps). c x p \<le> 0) \<and> (\<forall>y\<in>set (drop ?k ps). c p y < 0)"
    by (rule binarySearch_spec [OF assms pS Cons.prems(1) Cons.prems(3)]) simp_all
  then have s: "sorted_wrt (\<lambda>a b. c a b \<le> 0) (take ?k ps @ p # drop ?k ps)"
    using insert_at_sorted [OF Cons.prems(3)] by blast
  have "set (take ?k ps @ p # drop ?k ps) \<subseteq> S"
    using Cons.prems(1) pS by (auto dest: in_set_takeD in_set_dropD)
  from Cons.IH [OF this _ s] Cons.prems(2) show ?case
    by (simp add: Let_def)
qed

lemma arraySort_sorted:
  assumes "consistentOn c (set xs)"
  shows "sorted_wrt (\<lambda>a b. c a b \<le> 0) (arraySort c xs)"
proof (cases "length xs < 2")
  case True
  then have "xs = [] \<or> (\<exists>x. xs = [x])"
    by (cases xs) (auto simp: length_Suc_conv)
  then show ?thesis by (auto simp: arraySort_def)
next
  case False
  obtain front rest where cr: "countAndMakeRun c xs = (front, rest)"
    by (cases "countAndMakeRun c xs")
  have "set_mset (mset front + mset rest) = set xs"
    using mset_countAndMakeRun [OF cr] by simp
  then have sub: "set front \<subseteq> set xs" "set rest \<subseteq> set xs" by auto
  have "sorted_wrt (\<lambda>a b. c a b \<le> 0) (binaryInsertionSort c front rest)"
    by (rule binaryInsertionSort_sorted [OF assms sub countAndMakeRun_sorted [OF assms cr]])
  with False cr show ?thesis by (simp add: arraySort_def)
qed

text \<open>
  Ties of \<^verbatim>\<open>compareAscending\<close>: a key ties with itself, and a tie does not depend on
  the side.
\<close>

lemma compareAscending_refl: "compareAscending e k k = 0"
  by (cases k) (auto simp: compareAscending_def js_gt_def split: option.splits)

lemma compareAscending_tie_sym:
  assumes "compareAscending e a b = 0"
  shows "compareAscending e b a = 0"
proof -
  have ne: "strictNotEqual b a = strictNotEqual a b"
    by (cases a; cases b) auto
  show ?thesis
  proof (cases "strictNotEqual a b")
    case False
    then show ?thesis using ne by (simp add: compareAscending_def)
  next
    case True
    with assms have
      g: "\<not> (b \<noteq> JNull \<and> js_gt e a b)" and
      n: "\<not> (a = JNull \<and> b \<noteq> JUndefined)" and
      u: "a \<noteq> JUndefined" and
      l: "\<not> (a \<noteq> JNull \<and> js_lt e a b)" and
      n': "\<not> (b = JNull \<and> a \<noteq> JUndefined)" and
      u': "b \<noteq> JUndefined"
      by (auto simp: compareAscending_def Let_def split: if_splits)
    from n u' have an: "a \<noteq> JNull" by blast
    from n' u have bn: "b \<noteq> JNull" by blast
    from g bn have "\<not> js_lt e b a" by (simp add: js_gt_def)
    moreover from l an have "\<not> js_gt e b a" by (simp add: js_gt_def)
    ultimately show ?thesis using True ne an bn u u'
      by (simp add: compareAscending_def)
  qed
qed

lemma compareMultiple_tie:
  "compareAscending e (criteria x) (criteria y) = 0 \<Longrightarrow>
   compareMultiple e os x y = int (index x) - int (index y)"
  by (simp add: compareMultiple_def)

text \<open>
  \<^verbatim>\<open>compareMultiple\<close> orders the entries consistently when \<^verbatim>\<open>compareAscending\<close>
  does so for their keys: it compares by the keys, reversed for \<^verbatim>\<open>'desc'\<close>, and then
  by the positions.
\<close>

lemma consistentOn_negate:
  assumes "consistentOn r K"
  shows "consistentOn (\<lambda>a b. - r a b) K"
  unfolding consistentOn_def
proof (intro conjI ballI impI)
  fix x y assume "x \<in> K" "y \<in> K"
  then show "(- r x y < 0) = (0 < - r y x)"
    using consistentOn_sym [OF assms, of y x] by auto
next
  fix x y z assume m: "x \<in> K" "y \<in> K" "z \<in> K" and h: "- r x y \<le> 0 \<and> - r y z \<le> 0"
  then have "r y x \<le> 0" "r z y \<le> 0"
    using consistentOn_flip [OF assms, of x y] consistentOn_flip [OF assms, of y z] by auto
  then have "r z x \<le> 0" using consistentOn_trans [OF assms m(3) m(2) m(1)] by simp
  then have "\<not> r x z < 0" using consistentOn_sym [OF assms m(1) m(3)] by simp
  then show "- r x z \<le> 0" by simp
qed

lemma consistentOn_lex:
  assumes cs: "consistentOn r K"
  shows "consistentOn (\<lambda>x y. if r (k x) (k y) \<noteq> 0 then r (k x) (k y)
                             else int (i x) - int (i y)) {x. k x \<in> K}"
  unfolding consistentOn_def
proof (intro conjI ballI impI)
  fix x y assume "x \<in> {x. k x \<in> K}" "y \<in> {x. k x \<in> K}"
  then have m: "k x \<in> K" "k y \<in> K" by simp_all
  have "(r (k x) (k y) < 0) = (r (k y) (k x) > 0)" "(r (k y) (k x) < 0) = (r (k x) (k y) > 0)"
    using consistentOn_sym [OF cs m] consistentOn_sym [OF cs m(2) m(1)] by simp_all
  then show "((if r (k x) (k y) \<noteq> 0 then r (k x) (k y) else int (i x) - int (i y)) < 0)
           = (0 < (if r (k y) (k x) \<noteq> 0 then r (k y) (k x) else int (i y) - int (i x)))"
    by auto
next
  fix x y z
  assume "x \<in> {x. k x \<in> K}" "y \<in> {x. k x \<in> K}" "z \<in> {x. k x \<in> K}"
  then have m: "k x \<in> K" "k y \<in> K" "k z \<in> K" by simp_all
  assume h: "(if r (k x) (k y) \<noteq> 0 then r (k x) (k y) else int (i x) - int (i y)) \<le> 0 \<and>
             (if r (k y) (k z) \<noteq> 0 then r (k y) (k z) else int (i y) - int (i z)) \<le> 0"
  then have xy: "r (k x) (k y) < 0 \<or> (r (k x) (k y) = 0 \<and> i x \<le> i y)"
    and yz: "r (k y) (k z) < 0 \<or> (r (k y) (k z) = 0 \<and> i y \<le> i z)"
    by (auto split: if_splits)
  have le: "r (k x) (k z) \<le> 0"
    using xy yz consistentOn_trans [OF cs m] by auto
  have strict: "r (k x) (k z) < 0" if "r (k x) (k y) < 0 \<or> r (k y) (k z) < 0"
  proof (rule ccontr)
    assume "\<not> r (k x) (k z) < 0"
    with le have "r (k x) (k z) = 0" by simp
    then have zx: "r (k z) (k x) \<le> 0"
      using consistentOn_flip [OF cs m(1) m(3)] by simp
    from that show False
    proof
      assume a: "r (k x) (k y) < 0"
      from yz have "r (k y) (k z) \<le> 0" by auto
      with zx have "r (k y) (k x) \<le> 0" using consistentOn_trans [OF cs m(2) m(3) m(1)] by simp
      with a show False using consistentOn_sym [OF cs m(1) m(2)] by simp
    next
      assume a: "r (k y) (k z) < 0"
      from xy have "r (k x) (k y) \<le> 0" by auto
      with zx have "r (k z) (k y) \<le> 0" using consistentOn_trans [OF cs m(3) m(1) m(2)] by simp
      with a show False using consistentOn_sym [OF cs m(2) m(3)] by simp
    qed
  qed
  show "(if r (k x) (k z) \<noteq> 0 then r (k x) (k z) else int (i x) - int (i z)) \<le> 0"
  proof (cases "r (k x) (k y) < 0 \<or> r (k y) (k z) < 0")
    case True
    then show ?thesis using strict by simp
  next
    case False
    with xy yz have "i x \<le> i z" by auto
    with le show ?thesis by auto
  qed
qed

lemma compareMultiple_asc:
  "ord \<noteq> ''desc'' \<Longrightarrow> compareMultiple e (ord # rest) =
     (\<lambda>x y. if compareAscending e (criteria x) (criteria y) \<noteq> 0
            then compareAscending e (criteria x) (criteria y)
            else int (index x) - int (index y))"
  by (simp add: compareMultiple_def fun_eq_iff)

lemma compareMultiple_none:
  "compareMultiple e [] =
     (\<lambda>x y. if compareAscending e (criteria x) (criteria y) \<noteq> 0
            then compareAscending e (criteria x) (criteria y)
            else int (index x) - int (index y))"
  by (simp add: compareMultiple_def fun_eq_iff)

lemma compareMultiple_desc:
  "compareMultiple e (''desc'' # rest) =
     (\<lambda>x y. if - compareAscending e (criteria x) (criteria y) \<noteq> 0
            then - compareAscending e (criteria x) (criteria y)
            else int (index x) - int (index y))"
  by (simp add: compareMultiple_def fun_eq_iff)

lemma compareMultiple_consistent:
  assumes "consistentOn (compareAscending e) K"
  shows "consistentOn (compareMultiple e os) {en. criteria en \<in> K}"
proof (cases os)
  case Nil
  show ?thesis unfolding Nil compareMultiple_none
    by (rule consistentOn_lex [OF assms])
next
  case (Cons ord rest)
  show ?thesis
  proof (cases "ord = ''desc''")
    case True
    show ?thesis unfolding Cons True compareMultiple_desc
      by (rule consistentOn_lex [OF consistentOn_negate [OF assms]])
  next
    case False
    show ?thesis unfolding Cons compareMultiple_asc [OF False]
      by (rule consistentOn_lex [OF assms])
  qed
qed

lemma orderBy_entries_sorted:
  assumes "consistentOn (compareAscending e) (f ` set xs)"
  shows "sorted_wrt (\<lambda>a b. compareMultiple e os a b \<le> 0)
           (arraySort (compareMultiple e os) (baseMap f xs))"
proof -
  have "set (baseMap f xs) \<subseteq> {en. criteria en \<in> f ` set xs}"
  proof
    fix en assume en: "en \<in> set (baseMap f xs)"
    have "criteria en = f (entry_value en)" "entry_value en \<in> set xs"
      using criteria_baseMap [OF en] entry_value_in_baseMap [OF en] by simp_all
    then show "en \<in> {en. criteria en \<in> f ` set xs}" by simp
  qed
  then have "consistentOn (compareMultiple e os) (set (baseMap f xs))"
    by (rule consistentOn_subset [OF compareMultiple_consistent [OF assms]])
  then show ?thesis by (rule arraySort_sorted)
qed

lemma orderBy_stable:
  assumes cs: "consistentOn (compareAscending e) (f ` set xs)"
    and tie: "compareAscending e (f a) (f b) = 0"
  shows "relativeOrder a b (orderBy e xs f os) = relativeOrder a b xs"
proof -
  let ?Q = "\<lambda>x. x = a \<or> x = b"
  let ?P = "\<lambda>en. ?Q (entry_value en)"
  let ?c = "compareMultiple e os"
  let ?es = "baseMap f xs"
  let ?zs = "arraySort ?c ?es"
  have ties: "compareAscending e (f u) (f v) = 0" if "?Q u" "?Q v" for u v
    using that tie compareAscending_tie_sym [OF tie] compareAscending_refl by auto
  have dist: "distinct (map index ?es)" by (simp add: index_baseMap)
  have "mset (map index ?zs) = mset (map index ?es)"
    by (simp add: mset_arraySort)
  then have distz: "distinct (map index ?zs)"
    using dist mset_eq_imp_distinct_iff by blast
  have s1: "sorted (map index (filter ?P ?es))"
  proof -
    have "sorted (map index ?es)" by (simp add: index_baseMap)
    then have "sorted_wrt (\<lambda>x y. index x \<le> index y) ?es" by (simp add: sorted_wrt_map)
    then have "sorted_wrt (\<lambda>x y. index x \<le> index y) (filter ?P ?es)"
      by (rule sorted_wrt_filter)
    then show ?thesis by (simp add: sorted_wrt_map)
  qed
  have s2: "sorted (map index (filter ?P ?zs))"
  proof -
    have "sorted_wrt (\<lambda>x y. ?c x y \<le> 0) (filter ?P ?zs)"
      using orderBy_entries_sorted [OF cs] by (rule sorted_wrt_filter)
    then have "sorted_wrt (\<lambda>x y. index x \<le> index y) (filter ?P ?zs)"
    proof (rule sorted_wrt_mono_rel [rotated])
      fix x y assume x: "x \<in> set (filter ?P ?zs)" and y: "y \<in> set (filter ?P ?zs)"
        and le: "?c x y \<le> 0"
      from x y have "x \<in> set ?es" "y \<in> set ?es" "?P x" "?P y"
        by (simp_all add: set_arraySort)
      then have "compareAscending e (criteria x) (criteria y) = 0"
        using ties [of "entry_value x" "entry_value y"]
          criteria_baseMap [of x f xs] criteria_baseMap [of y f xs] by simp
      with le show "index x \<le> index y" by (simp add: compareMultiple_tie)
    qed
    then show ?thesis by (simp add: sorted_wrt_map)
  qed
  have "set (map index (filter ?P ?zs)) = set (map index (filter ?P ?es))"
    by (simp add: set_arraySort)
  moreover have "distinct (map index (filter ?P ?zs))" "distinct (map index (filter ?P ?es))"
    using dist distz by (simp_all add: distinct_map_filter)
  ultimately have eq: "map index (filter ?P ?zs) = map index (filter ?P ?es)"
    using s1 s2 by (intro sorted_distinct_set_unique) simp_all
  have "inj_on index (set ?es)" using dist by (simp add: distinct_map)
  then have "inj_on index (set (filter ?P ?zs) \<union> set (filter ?P ?es))"
    by (rule inj_on_subset) (auto simp: set_arraySort)
  with eq have "filter ?P ?zs = filter ?P ?es"
    by (simp add: inj_on_map_eq_map)
  then have "map entry_value (filter ?P ?zs) = map entry_value (filter ?P ?es)"
    by simp
  then have "filter ?Q (map entry_value ?zs) = filter ?Q (map entry_value ?es)"
    by (simp add: filter_map comp_def)
  then show ?thesis by (simp add: relativeOrder_def orderBy_def entry_value_baseMap)
qed

text \<open>
  Keys of one kind are ordered consistently: numbers, strings, and dates that are valid.
\<close>

lemma consistentOn_measure:
  fixes g :: "'a \<Rightarrow> 'b::linorder"
  assumes "\<And>x y. x \<in> S \<Longrightarrow> y \<in> S \<Longrightarrow>
             c x y = (if g x > g y then 1 else if g x < g y then - 1 else 0)"
  shows "consistentOn c S"
proof -
  have lt: "(c x y < 0) = (g x < g y)" and gt: "(c x y > 0) = (g y < g x)"
    and le: "(c x y \<le> 0) = (g x \<le> g y)" if "x \<in> S" "y \<in> S" for x y
    using assms [OF that] by auto
  show ?thesis
    unfolding consistentOn_def
  proof (intro conjI ballI impI)
    fix x y assume "x \<in> S" "y \<in> S"
    then show "(c x y < 0) = (0 < c y x)" by (simp add: lt gt)
  next
    fix x y z assume "x \<in> S" "y \<in> S" "z \<in> S" "c x y \<le> 0 \<and> c y z \<le> 0"
    then show "c x z \<le> 0" by (auto simp: le)
  qed
qed

lemma compareAscending_numbers:
  "compareAscending e (JNum x) (JNum y) = (if x > y then 1 else if x < y then - 1 else 0)"
  by (simp add: compareAscending_def js_gt_def)

lemma compareAscending_strings:
  "compareAscending e (JStr s) (JStr t) = (if s > t then 1 else if s < t then - 1 else 0)"
  by (simp add: compareAscending_def js_gt_def)

lemma compareAscending_dates:
  "compareAscending e (JDate (Some s)) (JDate (Some t))
   = (if s > t then 1 else if s < t then - 1 else 0)"
  by (simp add: compareAscending_def js_gt_def)

lemma consistent_numbers:
  assumes "\<forall>k\<in>K. \<exists>x. k = JNum x"
  shows "consistentOn (compareAscending e) K"
proof (rule consistentOn_measure [where g = "\<lambda>k. case k of JNum x \<Rightarrow> x | _ \<Rightarrow> 0"])
  fix a b assume "a \<in> K" "b \<in> K"
  with assms obtain x y where "a = JNum x" "b = JNum y" by blast
  then show "compareAscending e a b =
    (if (case b of JNum x \<Rightarrow> x | _ \<Rightarrow> 0) < (case a of JNum x \<Rightarrow> x | _ \<Rightarrow> 0) then 1
     else if (case a of JNum x \<Rightarrow> x | _ \<Rightarrow> 0) < (case b of JNum x \<Rightarrow> x | _ \<Rightarrow> 0) then - 1
     else 0)"
    by (simp add: compareAscending_numbers)
qed

lemma consistent_strings:
  assumes "\<forall>k\<in>K. \<exists>s. k = JStr s"
  shows "consistentOn (compareAscending e) K"
proof (rule consistentOn_measure [where g = "\<lambda>k. case k of JStr s \<Rightarrow> s | _ \<Rightarrow> []"])
  fix a b assume "a \<in> K" "b \<in> K"
  with assms obtain s t where "a = JStr s" "b = JStr t" by blast
  then show "compareAscending e a b =
    (if (case b of JStr s \<Rightarrow> s | _ \<Rightarrow> []) < (case a of JStr s \<Rightarrow> s | _ \<Rightarrow> []) then 1
     else if (case a of JStr s \<Rightarrow> s | _ \<Rightarrow> []) < (case b of JStr s \<Rightarrow> s | _ \<Rightarrow> []) then - 1
     else 0)"
    by (simp add: compareAscending_strings)
qed

lemma validDate_cases: "validDate v \<Longrightarrow> v = JDate (Some (dateTime v))"
  by (cases v rule: validDate.cases) simp_all

lemma consistent_dates:
  assumes "\<forall>k\<in>K. validDate k"
  shows "consistentOn (compareAscending e) K"
proof (rule consistentOn_measure [where g = dateTime])
  fix a b assume "a \<in> K" "b \<in> K"
  with assms have "a = JDate (Some (dateTime a))" "b = JDate (Some (dateTime b))"
    using validDate_cases by blast+
  then show "compareAscending e a b =
    (if dateTime b < dateTime a then 1 else if dateTime a < dateTime b then - 1 else 0)"
    using compareAscending_dates [of e "dateTime a" "dateTime b"] by simp
qed

section \<open>Stability\<close>

text \<open>
  C7, as the code has it. The sort step is stable on every collection whose sort keys
  the comparison orders consistently. Take any order, a collection of that kind, and
  two items \<open>a\<close> and \<open>b\<close> whose sort keys under the order's column compare as
  equal. Then the occurrences of \<open>a\<close> and \<open>b\<close> stand in the sorted items in the same
  relative order as in the filtered items the sort step was given.
\<close>

theorem sortedItems_stable:
  assumes "\<And>col. column order = Some col \<Longrightarrow>
             consistentOn (compareAscending e) (sortKey e col ` set xs)"
    and "\<And>col. column order = Some col \<Longrightarrow>
             compareAscending e (sortKey e col a) (sortKey e col b) = 0"
  shows "relativeOrder a b (sortedItems e order xs) = relativeOrder a b xs"
proof (cases "column order")
  case None
  then show ?thesis by (simp add: sortedItems_def)
next
  case (Some col)
  with assms have "consistentOn (compareAscending e) (sortKey e col ` set xs)"
    "compareAscending e (sortKey e col a) (sortKey e col b) = 0"
    by simp_all
  then show ?thesis using Some by (simp add: sortedItems_def orderBy_stable)
qed

lemma upt7: "[0..<7] = [0, 1, 2, 3, 4, 5, 6]"
  by (simp add: upt_rec)

theorem sortedItems_stable_witness:
  "consistentOn (compareAscending sampleEnv)
     (sortKey sampleEnv ''count'' ` set [itemA, itemB, itemC]) \<and>
   compareAscending sampleEnv (sortKey sampleEnv ''count'' itemB)
     (sortKey sampleEnv ''count'' itemC) = 0 \<and>
   sortedItems sampleEnv \<lparr>column = Some ''count'', desc = False\<rparr> [itemA, itemB, itemC]
     = [itemB, itemC, itemA] \<and>
   relativeOrder itemB itemC
     (sortedItems sampleEnv \<lparr>column = Some ''count'', desc = False\<rparr> [itemA, itemB, itemC])
     = [itemB, itemC]"
  using sortedItems_stable [of "\<lparr>column = Some ''count'', desc = False\<rparr>" sampleEnv
      "[itemA, itemB, itemC]" itemB itemC]
  by (simp add: sort_defs sample_defs upt_small binarySearch.simps consistentOn_def
      relativeOrder_def)

text \<open>
  C7, as the specification words it, for every collection, fails. In a time column with
  one value that does not parse, \<open>row5\<close> and \<open>row7\<close> both carry the timestamp 1000
  and \<open>row5\<close> comes first; sorted ascending, \<open>row7\<close> comes out in front of \<open>row5\<close>.
\<close>

theorem sortedItems_stable_counterexample:
  "compareAscending sampleEnv (sortKey sampleEnv ''span.time'' row5)
     (sortKey sampleEnv ''span.time'' row7) = 0 \<and>
   relativeOrder row5 row7 [row1, row2, row3, row4, row5, row6, row7] = [row5, row7] \<and>
   sortedItems sampleEnv \<lparr>column = Some ''span.time'', desc = False\<rparr>
     [row1, row2, row3, row4, row5, row6, row7]
     = [row6, row1, row2, row7, row3, row4, row5] \<and>
   relativeOrder row5 row7
     (sortedItems sampleEnv \<lparr>column = Some ''span.time'', desc = False\<rparr>
        [row1, row2, row3, row4, row5, row6, row7]) = [row7, row5]"
  by (simp add: sort_defs sample_defs row_defs upt7 binarySearch.simps relativeOrder_def)

section \<open>Sorting a date column\<close>

lemma compareMultiple_asc_dates:
  assumes "validDate (criteria x)" "validDate (criteria y)"
    and "compareMultiple e [''asc''] x y \<le> 0"
  shows "dateTime (criteria x) \<le> dateTime (criteria y)"
proof -
  from assms obtain s t where "criteria x = JDate (Some s)" "criteria y = JDate (Some t)"
    using validDate_cases by blast
  with assms(3) show ?thesis
    by (auto simp: compareMultiple_def compareAscending_dates Let_def split: if_splits)
qed

lemma compareMultiple_desc_dates:
  assumes "validDate (criteria x)" "validDate (criteria y)"
    and "compareMultiple e [''desc''] x y \<le> 0"
  shows "dateTime (criteria y) \<le> dateTime (criteria x)"
proof -
  from assms obtain s t where "criteria x = JDate (Some s)" "criteria y = JDate (Some t)"
    using validDate_cases by blast
  with assms(3) show ?thesis
    by (auto simp: compareMultiple_def compareAscending_dates Let_def split: if_splits)
qed

lemma compareAscending_invalid:
  "compareAscending e (JDate None) (JDate t) = 0 \<and>
   compareAscending e (JDate t) (JDate None) = 0"
  by (simp add: compareAscending_def js_gt_def split: option.splits)

lemma js_lt_valid:
  "validDate a \<Longrightarrow> validDate b \<Longrightarrow> js_lt e a b = (dateTime a < dateTime b)"
proof -
  assume "validDate a" "validDate b"
  then obtain s t where "a = JDate (Some s)" "b = JDate (Some t)"
    using validDate_cases by blast
  then show ?thesis by simp
qed

lemma orderBy_dates:
  fixes xs :: "'a list"
  assumes v: "\<forall>x\<in>set xs. validDate (f x)"
    and dir: "\<And>(x :: 'a sort_entry) y. validDate (criteria x) \<Longrightarrow> validDate (criteria y) \<Longrightarrow>
                compareMultiple e os x y \<le> 0 \<Longrightarrow> R (criteria x) (criteria y)"
  shows "sorted_wrt (\<lambda>a b. R (f a) (f b)) (orderBy e xs f os)"
proof -
  let ?zs = "arraySort (compareMultiple e os) (baseMap f xs)"
  have cs: "consistentOn (compareAscending e) (f ` set xs)"
    using v by (intro consistent_dates) auto
  have "sorted_wrt (\<lambda>a b. compareMultiple e os a b \<le> 0) ?zs"
    by (rule orderBy_entries_sorted [OF cs])
  then have "sorted_wrt (\<lambda>a b. R (f (entry_value a)) (f (entry_value b))) ?zs"
  proof (rule sorted_wrt_mono_rel [rotated])
    fix x y assume x: "x \<in> set ?zs" and y: "y \<in> set ?zs"
      and le: "compareMultiple e os x y \<le> 0"
    from x y have m: "x \<in> set (baseMap f xs)" "y \<in> set (baseMap f xs)"
      by (simp_all add: set_arraySort)
    have cx: "criteria x = f (entry_value x)" "criteria y = f (entry_value y)"
      using m criteria_baseMap by blast+
    have "validDate (criteria x)" "validDate (criteria y)"
      using cx v entry_value_in_baseMap [OF m(1)] entry_value_in_baseMap [OF m(2)] by simp_all
    from dir [OF this le] cx show "R (f (entry_value x)) (f (entry_value y))" by simp
  qed
  then show ?thesis by (simp add: orderBy_def sorted_wrt_map)
qed

lemma sortedItems_dates_asc:
  assumes "col \<noteq> []" and v: "\<forall>x\<in>set xs. validDate (sortKey e col x)"
  shows "sorted_wrt (\<lambda>a b. \<not> js_lt e (sortKey e col b) (sortKey e col a))
           (sortedItems e \<lparr>column = Some col, desc = False\<rparr> xs)"
proof -
  have "sorted_wrt (\<lambda>a b. validDate (sortKey e col a) \<and> validDate (sortKey e col b) \<and>
            dateTime (sortKey e col a) \<le> dateTime (sortKey e col b))
          (orderBy e xs (sortKey e col) [''asc''])"
    by (rule orderBy_dates [OF v]) (use compareMultiple_asc_dates in blast)
  then have "sorted_wrt (\<lambda>a b. \<not> js_lt e (sortKey e col b) (sortKey e col a))
          (orderBy e xs (sortKey e col) [''asc''])"
    by (rule sorted_wrt_mono_rel [rotated]) (simp add: js_lt_valid)
  then show ?thesis using assms(1) by (simp add: sortedItems_def)
qed

lemma sortedItems_dates_desc:
  assumes "col \<noteq> []" and v: "\<forall>x\<in>set xs. validDate (sortKey e col x)"
  shows "sorted_wrt (\<lambda>a b. \<not> js_lt e (sortKey e col a) (sortKey e col b))
           (sortedItems e \<lparr>column = Some col, desc = True\<rparr> xs)"
proof -
  have "sorted_wrt (\<lambda>a b. validDate (sortKey e col a) \<and> validDate (sortKey e col b) \<and>
            dateTime (sortKey e col b) \<le> dateTime (sortKey e col a))
          (orderBy e xs (sortKey e col) [''desc''])"
    by (rule orderBy_dates [OF v]) (use compareMultiple_desc_dates in blast)
  then have "sorted_wrt (\<lambda>a b. \<not> js_lt e (sortKey e col a) (sortKey e col b))
          (orderBy e xs (sortKey e col) [''desc''])"
    by (rule sorted_wrt_mono_rel [rotated]) (simp add: js_lt_valid)
  then show ?thesis using assms(1) by (simp add: sortedItems_def)
qed

lemma sortKey_date: "isDateField e col \<Longrightarrow> sortKey e col item = newDate e (getField item col)"
  by (simp add: sortKey_def)

lemma newDate_is_date: "\<exists>t. newDate e v = JDate t"
  by (cases v) simp_all

lemma newDate_valid: "newDate e v \<noteq> JDate None \<Longrightarrow> validDate (newDate e v)"
  using newDate_is_date [of e v] by (cases "newDate e v" rule: validDate.cases) auto

text \<open>
  C8, as the code has it. For a date-like order column the sort key of an item is the
  \<^verbatim>\<open>Date\<close> built from its value. A value that does not parse gives an Invalid Date,
  which compares as equal to the key of every item; it is not treated as epoch 0. When
  every value of the column parses, the sorted items are in the order of their
  timestamps: no item is followed by an earlier one when ascending, nor by a later one
  when descending.
\<close>

theorem date_column_sort:
  assumes "isDateField e col" and "col \<noteq> []"
  shows "sortKey e col item = newDate e (getField item col) \<and>
         compareAscending e (JDate None) (sortKey e col item) = 0 \<and>
         compareAscending e (sortKey e col item) (JDate None) = 0 \<and>
         ((\<forall>x\<in>set xs. sortKey e col x \<noteq> JDate None) \<longrightarrow>
            sorted_wrt (\<lambda>a b. \<not> js_lt e (sortKey e col b) (sortKey e col a))
              (sortedItems e \<lparr>column = Some col, desc = False\<rparr> xs) \<and>
            sorted_wrt (\<lambda>a b. \<not> js_lt e (sortKey e col a) (sortKey e col b))
              (sortedItems e \<lparr>column = Some col, desc = True\<rparr> xs))"
proof -
  have key: "sortKey e col x = newDate e (getField x col)" for x
    using assms(1) by (rule sortKey_date)
  obtain t where t: "sortKey e col item = JDate t"
    using newDate_is_date [of e "getField item col"] key by auto
  have ties: "compareAscending e (JDate None) (sortKey e col item) = 0 \<and>
              compareAscending e (sortKey e col item) (JDate None) = 0"
    using compareAscending_invalid [of e t] t by simp
  have "sorted_wrt (\<lambda>a b. \<not> js_lt e (sortKey e col b) (sortKey e col a))
              (sortedItems e \<lparr>column = Some col, desc = False\<rparr> xs) \<and>
        sorted_wrt (\<lambda>a b. \<not> js_lt e (sortKey e col a) (sortKey e col b))
              (sortedItems e \<lparr>column = Some col, desc = True\<rparr> xs)"
    if "\<forall>x\<in>set xs. sortKey e col x \<noteq> JDate None"
  proof -
    from that have "\<forall>x\<in>set xs. validDate (sortKey e col x)"
      using key newDate_valid by simp
    then show ?thesis
      using sortedItems_dates_asc [OF assms(2)] sortedItems_dates_desc [OF assms(2)]
      by blast
  qed
  with key ties show ?thesis by blast
qed

theorem date_column_sort_witness:
  "isDateField sampleEnv ''span.time'' \<and> ''span.time'' \<noteq> [] \<and>
   sortKey sampleEnv ''span.time'' itemC \<noteq> JDate None \<and>
   sortKey sampleEnv ''span.time'' itemA \<noteq> JDate None \<and>
   sortKey sampleEnv ''span.time'' itemB = JDate None \<and>
   compareAscending sampleEnv (JDate None) (sortKey sampleEnv ''span.time'' itemB) = 0 \<and>
   sortedItems sampleEnv \<lparr>column = Some ''span.time'', desc = False\<rparr> [itemC, itemA]
     = [itemA, itemC] \<and>
   sorted_wrt (\<lambda>a b. \<not> js_lt sampleEnv (sortKey sampleEnv ''span.time'' b)
                                         (sortKey sampleEnv ''span.time'' a))
     (sortedItems sampleEnv \<lparr>column = Some ''span.time'', desc = False\<rparr> [itemC, itemA])"
  using date_column_sort [of sampleEnv "''span.time''" itemB "[itemC, itemA]"]
  by (simp add: sort_defs sample_defs upt_small)

text \<open>
  C8, as the specification words it, fails: sorted ascending by the time column, the
  item with the timestamp 1000 stays in front of the item whose value does not parse,
  although epoch 0 would come first; and of these two results one has the unparseable
  item at the end, the other at the front.
\<close>

theorem date_column_sort_counterexample:
  "\<not> sorted (map (claimedTime sampleEnv ''span.time'')
       (sortedItems sampleEnv \<lparr>column = Some ''span.time'', desc = False\<rparr> [itemA, itemB])) \<and>
   sortedItems sampleEnv \<lparr>column = Some ''span.time'', desc = False\<rparr> [itemA, itemB]
     = [itemA, itemB] \<and>
   sortedItems sampleEnv \<lparr>column = Some ''span.time'', desc = False\<rparr> [itemB, itemA]
     = [itemB, itemA]"
  by (simp add: sort_defs sample_defs upt_small claimedTime_def)

section \<open>The pager's count\<close>

lemma fold_applyWrite_untouched:
  "\<not> list_ex touchesFilteredItems ws \<Longrightarrow>
   st_data (fold applyWrite ws s) = st_data s \<and>
   st_typeFilter (fold applyWrite ws s) = st_typeFilter s \<and>
   numItem (st_pager (fold applyWrite ws s)) = numItem (st_pager s)"
proof (induction ws arbitrary: s)
  case Nil
  then show ?case by simp
next
  case (Cons w ws)
  then show ?case by (cases w) auto
qed

lemma touchesItems_imp: "list_ex touchesItems ws \<Longrightarrow> list_ex touchesFilteredItems ws"
proof (induction ws)
  case Nil
  then show ?case by simp
next
  case (Cons w ws)
  then show ?case by (cases w) auto
qed

lemma inSync_useSpanExplore: "inSync e (useSpanExplore e d pager)"
  by (simp add: inSync_def useSpanExplore_def watchItems_def watchFilteredItems_def)

lemma inSync_pass:
  assumes "inSync e s"
  shows "inSync e (pass e s ws)"
proof (cases "list_ex touchesFilteredItems ws")
  case True
  then show ?thesis
    by (simp add: inSync_def pass_def Let_def watchItems_def watchFilteredItems_def)
next
  case False
  then have "\<not> list_ex touchesItems ws"
    using touchesItems_imp by blast
  with assms False show ?thesis
    using fold_applyWrite_untouched [OF False, of s]
    by (simp add: inSync_def pass_def Let_def)
qed

lemma inSync_foldl: "inSync e s \<Longrightarrow> inSync e (foldl (pass e) s passes)"
  by (induction passes arbitrary: s) (simp_all add: inSync_pass)

text \<open>
  C1. After the set-up and after every recomputation pass, which is when the page may
  be read, the pager's \<open>numItem\<close> is the length of the filtered items of the current
  state. In particular, under a non-empty type filter that removes an item, it is not
  the length of the raw items.
\<close>

theorem numItem_is_filtered_count:
  assumes "s = run e d pager passes"
  shows "numItem (st_pager s) = length (filteredItems e (items (st_data s)) (st_typeFilter s)) \<and>
         (st_typeFilter s \<noteq> [] \<and>
          length (filteredItems e (items (st_data s)) (st_typeFilter s))
            \<noteq> length (items (st_data s))
          \<longrightarrow> numItem (st_pager s) \<noteq> length (items (st_data s)))"
proof -
  have "inSync e s"
    unfolding assms run_def by (rule inSync_foldl [OF inSync_useSpanExplore])
  then show ?thesis by (simp add: inSync_def)
qed

theorem numItem_is_filtered_count_witness:
  "st_typeFilter (run sampleEnv None samplePager
      [[SetData (Some sampleResult)], [SetTypeFilter [''db'']], [SetPage 2]]) = [''db''] \<and>
   items (st_data (run sampleEnv None samplePager
      [[SetData (Some sampleResult)], [SetTypeFilter [''db'']], [SetPage 2]]))
     = [itemA, itemB, itemC] \<and>
   numItem (st_pager (run sampleEnv None samplePager
      [[SetData (Some sampleResult)], [SetTypeFilter [''db'']], [SetPage 2]])) = 2 \<and>
   numItem (st_pager (run sampleEnv None samplePager
      [[SetData (Some sampleResult)], [SetTypeFilter [''db'']], [SetPage 2]]))
     \<noteq> length (items (st_data (run sampleEnv None samplePager
      [[SetData (Some sampleResult)], [SetTypeFilter [''db'']], [SetPage 2]])))"
  using numItem_is_filtered_count [of _ sampleEnv None samplePager
      "[[SetData (Some sampleResult)], [SetTypeFilter [''db'']], [SetPage 2]]", OF refl]
  by (simp add: run_def pass_def useSpanExplore_def watchItems_def watchFilteredItems_def
      items_def filteredItems_def keepItem_def sample_defs)

section \<open>Type aggregation\<close>

text \<open>
  C2 asks for the entries in ascending order of the type label. The code returns them
  in the order of the dictionary: for the items \<open>itemB\<close>, \<open>itemA\<close>, \<open>itemC\<close> the label
  \<^verbatim>\<open>http\<close> is seen first and stays in front of \<^verbatim>\<open>db\<close>. The ordered copy that
  \<^verbatim>\<open>orderBy\<close> builds from the same entries has \<^verbatim>\<open>db\<close> in front.
\<close>

theorem types_first_seen_order:
  "types sampleEnv [itemB, itemA, itemC]
     = [\<lparr>type = ''http'', numGroup = 1\<rparr>, \<lparr>type = ''db'', numGroup = 2\<rparr>] \<and>
   \<not> sorted (map type (types sampleEnv [itemB, itemA, itemC])) \<and>
   orderBy sampleEnv (types sampleEnv [itemB, itemA, itemC]) (\<lambda>t. JStr (type t)) []
     = [\<lparr>type = ''db'', numGroup = 2\<rparr>, \<lparr>type = ''http'', numGroup = 1\<rparr>]"
proof -
  have t: "types sampleEnv [itemB, itemA, itemC]
     = [\<lparr>type = ''http'', numGroup = 1\<rparr>, \<lparr>type = ''db'', numGroup = 2\<rparr>]"
    by (simp add: types_def typesStep_def defineKey_def arrayIndex_def isDigit_def
        digitsValue_def Let_def sample_defs)
  have "orderBy sampleEnv [\<lparr>type = ''http'', numGroup = 1\<rparr>, \<lparr>type = ''db'', numGroup = 2\<rparr>]
          (\<lambda>t. JStr (type t)) []
        = [\<lparr>type = ''db'', numGroup = 2\<rparr>, \<lparr>type = ''http'', numGroup = 1\<rparr>]"
    by (simp add: orderBy_def baseMap_def arraySort_def countAndMakeRun_def
        compareMultiple_def compareAscending_def js_gt_def upt_small)
  with t show ?thesis by simp
qed

section \<open>Error projection and absent data\<close>

text \<open>When \<^verbatim>\<open>error.value?.response?.data\<close> is missing.\<close>

lemma errorData_None_iff:
  "errorData err = None \<longleftrightarrow>
     err = None \<or>
     (\<exists>er. err = Some er \<and>
        (response er = None \<or> (\<exists>r. response er = Some r \<and> response_data r = None)))"
  by (auto simp: errorData_def split: option.splits)

text \<open>
  C9. Whenever the path \<^verbatim>\<open>response.data\<close> of the error is absent, the case of no error
  included, the message and the code are the empty string, and so is the query, given
  that the SQL formatter turns the empty string into the empty string. No step of the
  projection can fail: each is a total function.
\<close>

theorem error_projection_absent:
  assumes "errorData err = None" and "format e (JStr []) = []"
  shows "errorMessage err = JStr [] \<and> errorCode err = JStr [] \<and> query e err = []"
  using assms by (simp add: errorMessage_def errorCode_def query_def orEmpty_def)

theorem error_projection_absent_witness:
  "errorData (Some \<lparr>response = Some \<lparr>response_data = None\<rparr>\<rparr>) = None \<and>
   format sampleEnv (JStr []) = [] \<and>
   errorMessage (Some \<lparr>response = Some \<lparr>response_data = None\<rparr>\<rparr>) = JStr [] \<and>
   errorCode (Some \<lparr>response = Some \<lparr>response_data = None\<rparr>\<rparr>) = JStr [] \<and>
   query sampleEnv (Some \<lparr>response = Some \<lparr>response_data = None\<rparr>\<rparr>) = []"
  using error_projection_absent [of "Some \<lparr>response = Some \<lparr>response_data = None\<rparr>\<rparr>" sampleEnv]
  by (simp add: errorData_def sampleEnv_def)

lemma orderBy_Nil: "orderBy e [] f os = []"
  by (simp add: orderBy_def baseMap_def arraySort_def)

lemma sortedItems_Nil: "sortedItems e order [] = []"
  by (simp add: sortedItems_def orderBy_Nil split: option.splits)

lemma slice_Nil: "slice [] a b = []"
  by (simp add: slice_def)

text \<open>
  C10. With no data, the items of the view, the page and the columns are the empty
  list, while the query parts are no value at all: \<^verbatim>\<open>queryParts\<close> has no default.
\<close>

theorem absent_data_view:
  "sortedItems e order (filteredItems e (items None) tf) = [] \<and>
   pageItems e pager (sortedItems e order (filteredItems e (items None) tf)) = [] \<and>
   columns None = [] \<and>
   queryParts None = None \<and> queryParts None \<noteq> Some []"
proof -
  have "filteredItems e (items None) tf = []"
    by (simp add: items_def filteredItems_def)
  then show ?thesis
    by (simp add: sortedItems_Nil pageItems_def slice_Nil columns_def queryParts_def)
qed

end
